theory Spec2Isabelle
  imports Main "HOL-Library.Sublist" "HOL-Library.AList"
begin

section \<open>Data model (src/src/mock/interfaces.ts)\<close>

text \<open>
  \<open>DocumentPhase\<close> and \<open>DocumentDiscipline\<close> are closed unions of string literals. The code
  compares them with plain strings (a folder name, a token of a path id), so each comes with
  the string it is at run time.
\<close>

datatype DocumentPhase = Planning | Design | Execution | Closure

datatype DocumentDiscipline = Civil | Electrical | Mechanical | Plumbing | HVAC | General

fun phase_str :: "DocumentPhase \<Rightarrow> string" where
  "phase_str Planning = ''Planning''"
| "phase_str Design = ''Design''"
| "phase_str Execution = ''Execution''"
| "phase_str Closure = ''Closure''"

fun discipline_str :: "DocumentDiscipline \<Rightarrow> string" where
  "discipline_str Civil = ''Civil''"
| "discipline_str Electrical = ''Electrical''"
| "discipline_str Mechanical = ''Mechanical''"
| "discipline_str Plumbing = ''Plumbing''"
| "discipline_str HVAC = ''HVAC''"
| "discipline_str General = ''General''"

text \<open>
  Of the interface \<open>Document\<close> the explorer reads eight fields; the others (type, mimeType,
  version, uploadedBy, status, notingSheet, ...) are never read by the functions below and
  are left out. \<open>description\<close> is optional in the interface.
\<close>

record Document =
  d_id :: string
  d_name :: string
  d_category :: string
  d_projectId :: string
  d_phase :: DocumentPhase
  d_discipline :: DocumentDiscipline
  d_tags :: "string list"
  d_description :: "string option"

text \<open>Of the interface \<open>Project\<close> the tree builder reads \<open>id\<close> and \<open>name\<close>.\<close>

record Project =
  p_id :: string
  p_name :: string

datatype NodeType = Project_t | Phase_t | Discipline_t | File_t

text \<open>
  \<open>FolderNode\<close>: \<open>children\<close>, \<open>documentCount\<close>, \<open>projectId\<close>, \<open>phase\<close> and \<open>discipline\<close> are
  optional fields of the interface, so they are options here.
\<close>

datatype FolderNode =
  FolderNode (n_id: string) (n_name: string) (n_type: NodeType)
    (n_children: "FolderNode list option") (n_documentCount: "nat option")
    (n_projectId: "string option") (n_phase: "DocumentPhase option")
    (n_discipline: "DocumentDiscipline option")

text \<open>
  A \<open>TypeError\<close> is what JavaScript throws on reading a property of \<open>undefined\<close>.
\<close>

datatype error = TypeError

section \<open>Strings\<close>

text \<open>
  \<open>String.prototype.toLowerCase\<close> is a function of the JavaScript engine, computed from the
  case tables of Unicode, which are not part of the sources. The functions below that call it
  take it as their first argument, \<open>toLowerCase\<close>, and what is proved of them holds for the
  function put there. Two facts about the engine's function are used, each only where a
  theorem names it:
  \<^item> on a string of ASCII characters it turns the letters \<open>A\<close> to \<open>Z\<close> into \<open>a\<close> to \<open>z\<close> and keeps
    every other character (\<open>lowers_ascii\<close>);
  \<^item> it gives the empty string for the empty string only (\<open>keeps_nonempty\<close>).
\<close>

definition lower_char :: "char \<Rightarrow> char" where
  "lower_char c =
     (let n = (of_char c :: nat) in if 65 \<le> n \<and> n \<le> 90 then char_of (n + 32) else c)"

definition ascii_char :: "char \<Rightarrow> bool" where
  "ascii_char c = ((of_char c :: nat) < 128)"

definition lowers_ascii :: "(string \<Rightarrow> string) \<Rightarrow> bool" where
  "lowers_ascii toLowerCase = (\<forall>s. list_all ascii_char s \<longrightarrow> toLowerCase s = map lower_char s)"

definition keeps_nonempty :: "(string \<Rightarrow> string) \<Rightarrow> bool" where
  "keeps_nonempty toLowerCase = (\<forall>s. (toLowerCase s = []) = (s = []))"

text \<open>
  One function with both properties, for the examples: the lower-casing of ASCII, which keeps
  every character beyond ASCII. The engine's function is another; the two agree on every
  string of ASCII characters.
\<close>

definition lowerCaseASCII :: "string \<Rightarrow> string" where
  "lowerCaseASCII s = map lower_char s"

text \<open>\<open>s.includes(q)\<close>: \<open>q\<close> occurs in \<open>s\<close> as a contiguous run of characters.\<close>

definition includes_str :: "string \<Rightarrow> string \<Rightarrow> bool" where
  "includes_str s q = sublist q s"

text \<open>
  \<open>s.split('-')\<close>: the pieces between the dashes, in order; a string without a dash gives
  one piece, and the empty string gives one empty piece.
\<close>

fun split_dash :: "string \<Rightarrow> string list" where
  "split_dash [] = [[]]"
| "split_dash (c # cs) =
     (if c = CHR ''-'' then [] # split_dash cs
      else (case split_dash cs of [] \<Rightarrow> [[c]] | p # ps \<Rightarrow> (c # p) # ps))"

section \<open>The filter engine (FileExplorer.tsx, \<open>filteredDocuments\<close>)\<close>

text \<open>
  The first block of \<open>filteredDocuments\<close>: the restriction decoded from \<open>selectedPath[0]\<close>.
  On an empty path \<open>selectedPath[0]\<close> is \<open>undefined\<close>, which differs from \<open>'all'\<close>, and
  \<open>pathId.includes\<close> throws.
\<close>

definition pathStage :: "string list \<Rightarrow> Document list \<Rightarrow> error + Document list" where
  "pathStage selectedPath documents =
     (case selectedPath of
        [] \<Rightarrow> Inl TypeError
      | pathId # _ \<Rightarrow>
          if pathId \<noteq> ''all'' then
            if includes_str pathId ''-'' then
              let parts = split_dash pathId;
                  projectId = parts ! 0 @ ''-'' @ parts ! 1;
                  filtered1 = filter (\<lambda>d. d_projectId d = projectId) documents;
                  filtered2 =
                    (if 3 \<le> length parts
                     then filter (\<lambda>d. phase_str (d_phase d) = parts ! 2) filtered1
                     else filtered1);
                  filtered3 =
                    (if 4 \<le> length parts
                     then filter (\<lambda>d. discipline_str (d_discipline d) = parts ! 3) filtered2
                     else filtered2)
              in Inr filtered3
            else Inr (filter (\<lambda>d. d_projectId d = pathId) documents)
          else Inr documents)"

text \<open>The predicate of the search block, on the lower-cased query \<open>query\<close>.\<close>

definition searchMatch :: "(string \<Rightarrow> string) \<Rightarrow> string \<Rightarrow> Document \<Rightarrow> bool" where
  "searchMatch toLowerCase query d =
     (includes_str (toLowerCase (d_name d)) query \<or>
      list_ex (\<lambda>t. includes_str (toLowerCase t) query) (d_tags d) \<or>
      includes_str (toLowerCase (d_category d)) query \<or>
      (case d_description d of None \<Rightarrow> False
       | Some desc \<Rightarrow> includes_str (toLowerCase desc) query))"

text \<open>The second block: \<open>if (searchQuery)\<close> is true of every string but the empty one.\<close>

definition searchStage :: "(string \<Rightarrow> string) \<Rightarrow> string \<Rightarrow> Document list \<Rightarrow> Document list" where
  "searchStage toLowerCase searchQuery filtered =
     (if searchQuery \<noteq> []
      then filter (searchMatch toLowerCase (toLowerCase searchQuery)) filtered
      else filtered)"

text \<open>\<open>filteredDocuments\<close> (the spec's \<open>applyFilter\<close>), with the engine's \<open>toLowerCase\<close>.\<close>

definition filteredDocuments ::
  "(string \<Rightarrow> string) \<Rightarrow> Document list \<Rightarrow> string list \<Rightarrow> string \<Rightarrow> error + Document list" where
  "filteredDocuments toLowerCase documents selectedPath searchQuery =
     (case pathStage selectedPath documents of
        Inl e \<Rightarrow> Inl e
      | Inr filtered \<Rightarrow> Inr (searchStage toLowerCase searchQuery filtered))"

section \<open>The folder tree builder (FileExplorer.tsx, \<open>folderTree\<close>)\<close>

text \<open>\<open>node.documentCount = (node.documentCount || 0) + 1\<close>\<close>

definition bump :: "FolderNode \<Rightarrow> FolderNode" where
  "bump node =
     (case node of FolderNode i nm t cs dc p ph di \<Rightarrow>
        FolderNode i nm t cs (Some ((case dc of None \<Rightarrow> 0 | Some k \<Rightarrow> k) + 1)) p ph di)"

definition set_children :: "FolderNode list option \<Rightarrow> FolderNode \<Rightarrow> FolderNode" where
  "set_children cs' node =
     (case node of FolderNode i nm t cs dc p ph di \<Rightarrow> FolderNode i nm t cs' dc p ph di)"

text \<open>
  The nodes are objects mutated in place: \<open>find\<close> returns the first child that satisfies the
  test, and what is then done to that object is seen in the parent's list at its position.
\<close>

fun mutate_first :: "('a \<Rightarrow> bool) \<Rightarrow> ('a \<Rightarrow> 'a) \<Rightarrow> 'a list \<Rightarrow> 'a list" where
  "mutate_first P f [] = []"
| "mutate_first P f (x # xs) = (if P x then f x # xs else x # mutate_first P f xs)"

text \<open>\<open>node.children?.find(test)\<close>\<close>

definition find_child :: "(FolderNode \<Rightarrow> bool) \<Rightarrow> FolderNode \<Rightarrow> FolderNode option" where
  "find_child test node = (case n_children node of None \<Rightarrow> None | Some cs \<Rightarrow> find test cs)"

text \<open>\<open>node.children = node.children || []; node.children.push(child)\<close>\<close>

definition push_child :: "FolderNode \<Rightarrow> FolderNode \<Rightarrow> FolderNode" where
  "push_child child node =
     set_children (Some ((case n_children node of None \<Rightarrow> [] | Some cs \<Rightarrow> cs) @ [child])) node"

definition newDisciplineNode :: "Document \<Rightarrow> FolderNode" where
  "newDisciplineNode doc =
     FolderNode
       (d_projectId doc @ ''-'' @ phase_str (d_phase doc) @ ''-'' @ discipline_str (d_discipline doc))
       (discipline_str (d_discipline doc)) Discipline_t (Some []) (Some 0)
       None None (Some (d_discipline doc))"

definition newPhaseNode :: "Document \<Rightarrow> FolderNode" where
  "newPhaseNode doc =
     FolderNode (d_projectId doc @ ''-'' @ phase_str (d_phase doc))
       (phase_str (d_phase doc)) Phase_t (Some []) (Some 0) None (Some (d_phase doc)) None"

definition newProjectNode :: "string \<Rightarrow> Document \<Rightarrow> FolderNode" where
  "newProjectNode projectName doc =
     FolderNode (d_projectId doc) projectName Project_t (Some []) (Some 0)
       (Some (d_projectId doc)) None None"

text \<open>
  Lines 85 to 99, on the phase node: find the discipline node by its name or create and
  push it, then count the document in it.
\<close>

definition disciplineStep :: "Document \<Rightarrow> FolderNode \<Rightarrow> FolderNode" where
  "disciplineStep doc phaseNode =
     (let test = (\<lambda>c. n_name c = discipline_str (d_discipline doc)) in
      case find_child test phaseNode of
        None \<Rightarrow> push_child (bump (newDisciplineNode doc)) phaseNode
      | Some _ \<Rightarrow> set_children (map_option (mutate_first test bump) (n_children phaseNode)) phaseNode)"

text \<open>
  Lines 69 to 99, on the project node: find the phase node by its name or create and push
  it, count the document in it, and go on with the discipline.
\<close>

definition phaseStep :: "Document \<Rightarrow> FolderNode \<Rightarrow> FolderNode" where
  "phaseStep doc projectNode =
     (let test = (\<lambda>c. n_name c = phase_str (d_phase doc)) in
      case find_child test projectNode of
        None \<Rightarrow> push_child (disciplineStep doc (bump (newPhaseNode doc))) projectNode
      | Some _ \<Rightarrow>
          set_children
            (map_option (mutate_first test (\<lambda>n. disciplineStep doc (bump n))) (n_children projectNode))
            projectNode)"

text \<open>\<open>project?.name || 'Unknown Project'\<close>: the empty name is falsy too.\<close>

definition projectNameOf :: "Project list \<Rightarrow> Document \<Rightarrow> string" where
  "projectNameOf projects doc =
     (case find (\<lambda>p. p_id p = d_projectId doc) projects of
        None \<Rightarrow> ''Unknown Project''
      | Some p \<Rightarrow> if p_name p \<noteq> [] then p_name p else ''Unknown Project'')"

text \<open>
  The body of \<open>documents.forEach\<close>. \<open>projectMap\<close> is a JavaScript \<open>Map\<close>: an association
  list in insertion order, where a new key goes to the end and the value of an old key is
  replaced where it stands. \<open>projectMap.get(doc.projectId)!\<close> is only asserted to be defined;
  were it \<open>undefined\<close>, reading \<open>documentCount\<close> of it would throw.
\<close>

definition forEachBody ::
  "Project list \<Rightarrow> Document \<Rightarrow> (string \<times> FolderNode) list \<Rightarrow> error + (string \<times> FolderNode) list" where
  "forEachBody projects doc projectMap =
     (let projectName = projectNameOf projects doc;
          projectMap1 =
            (if map_of projectMap (d_projectId doc) = None
             then AList.update (d_projectId doc) (newProjectNode projectName doc) projectMap
             else projectMap)
      in case map_of projectMap1 (d_projectId doc) of
           None \<Rightarrow> Inl TypeError
         | Some projectNode \<Rightarrow>
             Inr (AList.update (d_projectId doc) (phaseStep doc (bump projectNode)) projectMap1))"

fun forEach_documents ::
  "Project list \<Rightarrow> Document list \<Rightarrow> (string \<times> FolderNode) list \<Rightarrow> error + (string \<times> FolderNode) list" where
  "forEach_documents projects [] projectMap = Inr projectMap"
| "forEach_documents projects (doc # docs) projectMap =
     (case forEachBody projects doc projectMap of
        Inl e \<Rightarrow> Inl e
      | Inr projectMap' \<Rightarrow> forEach_documents projects docs projectMap')"

text \<open>
  \<open>folderTree\<close> (the spec's \<open>buildTree\<close>). The list \<open>projects\<close> is imported from the mock
  data, which is not part of the sources at hand, so it is a parameter.
\<close>

definition folderTree :: "Project list \<Rightarrow> Document list \<Rightarrow> error + FolderNode list" where
  "folderTree projects documents =
     (case forEach_documents projects documents [] of
        Inl e \<Rightarrow> Inl e
      | Inr projectMap \<Rightarrow>
          Inr [FolderNode ''all'' ''All Documents'' Project_t (Some (map snd projectMap))
                 (Some (length documents)) None None None])"

section \<open>Tree navigation (FolderTree.tsx, \<open>TreeNode\<close>)\<close>

text \<open>
  Every \<open>TreeNode\<close> hands \<open>nodePath = [...parentPath, node.id]\<close> to \<open>onSelect\<close> when it is
  clicked, and renders its children with \<open>parentPath = nodePath\<close>. \<open>treeNodePaths\<close> lists the
  paths that a node and the nodes below it can select (all of them, as if every node were
  expanded), and \<open>folderTreePaths\<close> those of \<open>FolderTree\<close>, which renders each top-level
  node with the default \<open>parentPath = []\<close>.
\<close>

fun treeNodePaths :: "string list \<Rightarrow> FolderNode \<Rightarrow> string list list" where
  "treeNodePaths parentPath (FolderNode i nm t cs dc p ph di) =
     (parentPath @ [i]) #
     (case cs of None \<Rightarrow> []
      | Some children \<Rightarrow> concat (map (treeNodePaths (parentPath @ [i])) children))"

definition folderTreePaths :: "FolderNode list \<Rightarrow> string list list" where
  "folderTreePaths nodes = concat (map (treeNodePaths []) nodes)"

section \<open>The words of the specification\<close>

text \<open>
  The two documents of the specification's scenario. The scenario gives id, projectId, phase,
  discipline, name and tags; the category is empty and there is no description.
\<close>

definition scenario_d1 :: Document where
  "scenario_d1 =
     \<lparr>d_id = ''d1'', d_name = ''Bridge Plan'', d_category = [], d_projectId = ''proj-1'',
      d_phase = Design, d_discipline = Civil, d_tags = [''structural''],
      d_description = None\<rparr>"

definition scenario_d2 :: Document where
  "scenario_d2 =
     \<lparr>d_id = ''d2'', d_name = ''Wiring Diagram'', d_category = [], d_projectId = ''proj-1'',
      d_phase = Execution, d_discipline = Electrical, d_tags = [],
      d_description = None\<rparr>"

text \<open>Joining tokens with dashes, the inverse of \<open>split_dash\<close>.\<close>

fun join_dash :: "string list \<Rightarrow> string" where
  "join_dash [] = []"
| "join_dash [t] = t"
| "join_dash (t # ts) = t @ ''-'' @ join_dash ts"

text \<open>
  The decoding rule of the Path Resolver as the specification words it: no restriction for
  \<open>all\<close>; for an id with a dash, the first two tokens joined by a dash are the projectId, the
  third token, if present, is the phase and the fourth, if present, the discipline; an id
  without a dash is a projectId.
\<close>

definition resolveFilter :: "string \<Rightarrow> Document \<Rightarrow> bool" where
  "resolveFilter pathId d =
     (if pathId = ''all'' then True
      else if CHR ''-'' \<in> set pathId then
        (case split_dash pathId of
           t1 # t2 # rest \<Rightarrow>
             d_projectId d = t1 @ ''-'' @ t2 \<and>
             (case rest of [] \<Rightarrow> True
              | t3 # rest' \<Rightarrow>
                  phase_str (d_phase d) = t3 \<and>
                  (case rest' of [] \<Rightarrow> True
                   | t4 # _ \<Rightarrow> discipline_str (d_discipline d) = t4))
         | _ \<Rightarrow> False)
      else d_projectId d = pathId)"

text \<open>
  The search predicate as the specification words it: the lower-cased query is a substring
  of the lower-cased name or category or description, or is present among the lower-cased
  tags.
\<close>

definition searchMatch_claim :: "(string \<Rightarrow> string) \<Rightarrow> string \<Rightarrow> Document \<Rightarrow> bool" where
  "searchMatch_claim toLowerCase q d =
     (sublist (toLowerCase q) (toLowerCase (d_name d)) \<or>
      sublist (toLowerCase q) (toLowerCase (d_category d)) \<or>
      toLowerCase q \<in> set (map toLowerCase (d_tags d)) \<or>
      (case d_description d of None \<Rightarrow> False
       | Some desc \<Rightarrow> sublist (toLowerCase q) (toLowerCase desc)))"

text \<open>
  The same with the tags searched as the other fields are: the lower-cased query is a
  substring of some lower-cased tag.
\<close>

definition searchMatch_amended :: "(string \<Rightarrow> string) \<Rightarrow> string \<Rightarrow> Document \<Rightarrow> bool" where
  "searchMatch_amended toLowerCase q d =
     (sublist (toLowerCase q) (toLowerCase (d_name d)) \<or>
      sublist (toLowerCase q) (toLowerCase (d_category d)) \<or>
      (\<exists>t \<in> set (d_tags d). sublist (toLowerCase q) (toLowerCase t)) \<or>
      (case d_description d of None \<Rightarrow> False
       | Some desc \<Rightarrow> sublist (toLowerCase q) (toLowerCase desc)))"

text \<open>The whitespace of ASCII: space, tab, line feed, vertical tab, form feed, carriage return.\<close>

definition whitespace_char :: "char \<Rightarrow> bool" where
  "whitespace_char c = (c \<in> set [CHR '' '', CHR 0x09, CHR 0x0A, CHR 0x0B, CHR 0x0C, CHR 0x0D])"

text \<open>
  The tree of the scenario: the root counts 2, the one project node \<open>proj-1\<close> counts 2, and
  its two phase children count 1 with one discipline child each. The scenario is silent on the
  projects known, so the project node bears the placeholder name.
\<close>

definition scenario_tree :: "FolderNode list" where
  "scenario_tree =
     [FolderNode ''all'' ''All Documents'' Project_t
        (Some [FolderNode ''proj-1'' ''Unknown Project'' Project_t
           (Some [FolderNode ''proj-1-Design'' ''Design'' Phase_t
                    (Some [FolderNode ''proj-1-Design-Civil'' ''Civil'' Discipline_t
                             (Some []) (Some 1) None None (Some Civil)])
                    (Some 1) None (Some Design) None,
                  FolderNode ''proj-1-Execution'' ''Execution'' Phase_t
                    (Some [FolderNode ''proj-1-Execution-Electrical'' ''Electrical'' Discipline_t
                             (Some []) (Some 1) None None (Some Electrical)])
                    (Some 1) None (Some Execution) None])
           (Some 2) (Some ''proj-1'') None None])
        (Some 2) None None None]"

text \<open>The count a node shows: \<open>documentCount\<close>, and 0 where the field is absent.\<close>

definition countOf :: "FolderNode \<Rightarrow> nat" where
  "countOf node = (case n_documentCount node of None \<Rightarrow> 0 | Some k \<Rightarrow> k)"

text \<open>The counts of the project nodes of a \<open>projectMap\<close>, added up.\<close>

definition sumCounts :: "(string \<times> FolderNode) list \<Rightarrow> nat" where
  "sumCounts m = sum_list (map (countOf \<circ> snd) m)"

text \<open>
  The display name the builder gives the project node of a projectId, and the invariant of
  \<open>projectMap\<close>: each entry's node bears the id of its key, the type project and that name.
\<close>

definition projectNameFor :: "Project list \<Rightarrow> string \<Rightarrow> string" where
  "projectNameFor projects k =
     (case find (\<lambda>p. p_id p = k) projects of
        None \<Rightarrow> ''Unknown Project''
      | Some p \<Rightarrow> if p_name p \<noteq> [] then p_name p else ''Unknown Project'')"

definition projectNodes_ok :: "Project list \<Rightarrow> (string \<times> FolderNode) list \<Rightarrow> bool" where
  "projectNodes_ok projects m =
     list_all (\<lambda>(k, n). n_id n = k \<and> n_type n = Project_t \<and> n_name n = projectNameFor projects k) m"

text \<open>
  The tree builder as the specification words it: the phase node is looked up under its
  project node by the key \<open>projectId-phase\<close>, the discipline node under its phase node by the
  key \<open>projectId-phase-discipline\<close>, each against the \<open>id\<close> of the children. Everything else is
  as in \<open>folderTree\<close>.
\<close>

definition disciplineStep_byId :: "Document \<Rightarrow> FolderNode \<Rightarrow> FolderNode" where
  "disciplineStep_byId doc phaseNode =
     (let test = (\<lambda>c. n_id c =
            d_projectId doc @ ''-'' @ phase_str (d_phase doc) @ ''-'' @ discipline_str (d_discipline doc)) in
      case find_child test phaseNode of
        None \<Rightarrow> push_child (bump (newDisciplineNode doc)) phaseNode
      | Some _ \<Rightarrow> set_children (map_option (mutate_first test bump) (n_children phaseNode)) phaseNode)"

definition phaseStep_byId :: "Document \<Rightarrow> FolderNode \<Rightarrow> FolderNode" where
  "phaseStep_byId doc projectNode =
     (let test = (\<lambda>c. n_id c = d_projectId doc @ ''-'' @ phase_str (d_phase doc)) in
      case find_child test projectNode of
        None \<Rightarrow> push_child (disciplineStep_byId doc (bump (newPhaseNode doc))) projectNode
      | Some _ \<Rightarrow>
          set_children
            (map_option (mutate_first test (\<lambda>n. disciplineStep_byId doc (bump n)))
               (n_children projectNode))
            projectNode)"

definition forEachBody_byId ::
  "Project list \<Rightarrow> Document \<Rightarrow> (string \<times> FolderNode) list \<Rightarrow> error + (string \<times> FolderNode) list" where
  "forEachBody_byId projects doc projectMap =
     (let projectName = projectNameOf projects doc;
          projectMap1 =
            (if map_of projectMap (d_projectId doc) = None
             then AList.update (d_projectId doc) (newProjectNode projectName doc) projectMap
             else projectMap)
      in case map_of projectMap1 (d_projectId doc) of
           None \<Rightarrow> Inl TypeError
         | Some projectNode \<Rightarrow>
             Inr (AList.update (d_projectId doc) (phaseStep_byId doc (bump projectNode)) projectMap1))"

fun forEach_documents_byId ::
  "Project list \<Rightarrow> Document list \<Rightarrow> (string \<times> FolderNode) list \<Rightarrow> error + (string \<times> FolderNode) list" where
  "forEach_documents_byId projects [] projectMap = Inr projectMap"
| "forEach_documents_byId projects (doc # docs) projectMap =
     (case forEachBody_byId projects doc projectMap of
        Inl e \<Rightarrow> Inl e
      | Inr projectMap' \<Rightarrow> forEach_documents_byId projects docs projectMap')"

definition folderTree_byId :: "Project list \<Rightarrow> Document list \<Rightarrow> error + FolderNode list" where
  "folderTree_byId projects documents =
     (case forEach_documents_byId projects documents [] of
        Inl e \<Rightarrow> Inl e
      | Inr projectMap \<Rightarrow>
          Inr [FolderNode ''all'' ''All Documents'' Project_t (Some (map snd projectMap))
                 (Some (length documents)) None None None])"

text \<open>No two children of a node share an id, at this node and at every node below it.\<close>

fun siblings_distinct :: "FolderNode \<Rightarrow> bool" where
  "siblings_distinct (FolderNode i nm t cs dc p ph di) =
     (case cs of None \<Rightarrow> True
      | Some children \<Rightarrow> distinct (map n_id children) \<and> list_all siblings_distinct children)"

text \<open>
  The invariant of the builder, level by level: a discipline node is a leaf whose id is its
  parent's id, a dash and its name; a phase node has the id of its project, a dash and its
  name, and discipline children of distinct names; a project node has the id of its key and
  phase children of distinct names; the keys of \<open>projectMap\<close> are distinct.
\<close>

definition wfDisc :: "string \<Rightarrow> FolderNode \<Rightarrow> bool" where
  "wfDisc pre e = (n_id e = pre @ ''-'' @ n_name e \<and> n_children e = Some [])"

definition wfPhase :: "string \<Rightarrow> FolderNode \<Rightarrow> bool" where
  "wfPhase k c =
     (n_id c = k @ ''-'' @ n_name c \<and>
      (case n_children c of None \<Rightarrow> False
       | Some ds \<Rightarrow> distinct (map n_name ds) \<and> list_all (wfDisc (n_id c)) ds))"

definition wfProj :: "string \<Rightarrow> FolderNode \<Rightarrow> bool" where
  "wfProj k pn =
     (n_id pn = k \<and>
      (case n_children pn of None \<Rightarrow> False
       | Some cs \<Rightarrow> distinct (map n_name cs) \<and> list_all (wfPhase k) cs))"

definition wfMap :: "(string \<times> FolderNode) list \<Rightarrow> bool" where
  "wfMap m = (distinct (map fst m) \<and> list_all (\<lambda>(k, pn). wfProj k pn) m)"

text \<open>A document whose name, category, tags and description are strings of ASCII characters.\<close>

definition ascii_document :: "Document \<Rightarrow> bool" where
  "ascii_document d =
     (list_all ascii_char (d_name d) \<and> list_all ascii_char (d_category d) \<and>
      list_all (list_all ascii_char) (d_tags d) \<and>
      (case d_description d of None \<Rightarrow> True | Some desc \<Rightarrow> list_all ascii_char desc))"

section \<open>Facts about the string functions\<close>

lemma includes_dash: "includes_str s ''-'' \<longleftrightarrow> CHR ''-'' \<in> set s"
  unfolding includes_str_def
  by (induction s) (auto simp: sublist_Cons_right)

lemma split_dash_nonempty: "split_dash s \<noteq> []"
  by (induction s) (auto split: list.splits)

lemma split_dash_length: "length (split_dash s) = Suc (count_list s (CHR ''-''))"
  by (induction s) (auto split: list.splits simp: split_dash_nonempty)

lemma split_dash_no_dash: "t \<in> set (split_dash s) \<Longrightarrow> CHR ''-'' \<notin> set t"
  by (induction s arbitrary: t) (auto split: list.splits if_splits)

lemma split_dash_join: "join_dash (split_dash s) = s"
proof (induction s)
  case Nil show ?case by simp
next
  case (Cons c cs)
  obtain p ps where sp: "split_dash cs = p # ps"
    using split_dash_nonempty[of cs] by (cases "split_dash cs") auto
  show ?case using Cons sp by (cases ps) auto
qed

lemma split_dash_two: "CHR ''-'' \<in> set s \<Longrightarrow> \<exists>t1 t2 ts. split_dash s = t1 # t2 # ts"
proof -
  assume "CHR ''-'' \<in> set s"
  then have "count_list s (CHR ''-'') > 0" by (metis count_list_0_iff gr0I)
  then have "length (split_dash s) \<ge> 2" by (simp add: split_dash_length)
  then show ?thesis
    by (cases "split_dash s"; simp) (metis Suc_le_length_iff)
qed

section \<open>Facts about the filter engine\<close>

lemma pathStage_resolve:
  "pathStage (pathId # rest) D = Inr (filter (resolveFilter pathId) D)"
proof (cases "pathId = ''all''")
  case True then show ?thesis by (simp add: pathStage_def resolveFilter_def)
next
  case False
  show ?thesis
  proof (cases "CHR ''-'' \<in> set pathId")
    case nd: False
    with False show ?thesis
      by (simp add: pathStage_def resolveFilter_def includes_dash cong: filter_cong)
  next
    case True
    then obtain t1 t2 ts where sp: "split_dash pathId = t1 # t2 # ts"
      using split_dash_two by blast
    show ?thesis
    proof (cases ts)
      case Nil
      with sp False True show ?thesis
        by (simp add: pathStage_def resolveFilter_def includes_dash Let_def cong: filter_cong)
    next
      case (Cons t3 ts')
      show ?thesis
      proof (cases ts')
        case Nil
        with Cons sp False True show ?thesis
          by (simp add: pathStage_def resolveFilter_def includes_dash Let_def conj_commute
              cong: filter_cong)
      next
        case (Cons t4 ts'')
        with \<open>ts = t3 # ts'\<close> sp False True show ?thesis
          by (simp add: pathStage_def resolveFilter_def includes_dash Let_def conj_commute
              conj_left_commute cong: filter_cong)
      qed
    qed
  qed
qed

lemma searchMatch_iff: "searchMatch toLowerCase (toLowerCase q) d = searchMatch_amended toLowerCase q d"
  by (auto simp: searchMatch_def searchMatch_amended_def includes_str_def list_ex_iff split: option.splits)

lemma lowerCaseASCII_lowers_ascii: "lowers_ascii lowerCaseASCII"
  by (simp add: lowers_ascii_def lowerCaseASCII_def)

lemma lowerCaseASCII_keeps_nonempty: "keeps_nonempty lowerCaseASCII"
  by (simp add: keeps_nonempty_def lowerCaseASCII_def)

lemma lowers_ascii_eq:
  "lowers_ascii toLowerCase \<Longrightarrow> list_all ascii_char s \<Longrightarrow> toLowerCase s = lowerCaseASCII s"
  by (simp add: lowers_ascii_def lowerCaseASCII_def)

lemma searchStage_lower_cong:
  assumes "keeps_nonempty toLowerCase" "toLowerCase q = toLowerCase q'"
  shows "searchStage toLowerCase q F = searchStage toLowerCase q' F"
proof -
  have "q = [] \<longleftrightarrow> q' = []" using assms by (metis keeps_nonempty_def)
  then show ?thesis using assms(2) by (auto simp: searchStage_def)
qed

lemma searchMatch_ascii:
  assumes "lowers_ascii toLowerCase" "ascii_document d"
  shows "searchMatch toLowerCase query d = searchMatch lowerCaseASCII query d"
proof -
  note eq = lowers_ascii_eq[OF assms(1)]
  from assms(2) have n: "toLowerCase (d_name d) = lowerCaseASCII (d_name d)"
    and c: "toLowerCase (d_category d) = lowerCaseASCII (d_category d)"
    and t: "\<And>t. t \<in> set (d_tags d) \<Longrightarrow> toLowerCase t = lowerCaseASCII t"
    and e: "\<And>desc. d_description d = Some desc \<Longrightarrow> toLowerCase desc = lowerCaseASCII desc"
    by (auto simp: ascii_document_def list_all_iff intro!: eq)
  show ?thesis
    by (auto simp: searchMatch_def n c t e list_ex_iff split: option.splits)
qed

lemma searchStage_ascii:
  assumes "lowers_ascii toLowerCase" "list_all ascii_document F" "list_all ascii_char q"
  shows "searchStage toLowerCase q F = searchStage lowerCaseASCII q F"
proof -
  have q: "toLowerCase q = lowerCaseASCII q" using assms(1,3) by (rule lowers_ascii_eq)
  have "filter (searchMatch toLowerCase (lowerCaseASCII q)) F =
      filter (searchMatch lowerCaseASCII (lowerCaseASCII q)) F"
    using assms(2) by (intro filter_cong refl searchMatch_ascii[OF assms(1)]) (simp add: list_all_iff)
  then show ?thesis by (simp add: searchStage_def q)
qed

lemma filteredDocuments_ascii:
  assumes "lowers_ascii toLowerCase" "list_all ascii_document D" "list_all ascii_char q"
  shows "filteredDocuments toLowerCase D p q = filteredDocuments lowerCaseASCII D p q"
proof (cases p)
  case Nil
  then show ?thesis by (simp add: filteredDocuments_def pathStage_def)
next
  case (Cons x r)
  have "list_all ascii_document (filter (resolveFilter x) D)"
    using assms(2) by (simp add: list_all_iff)
  from searchStage_ascii[OF assms(1) this assms(3)] Cons show ?thesis
    by (simp add: filteredDocuments_def pathStage_resolve)
qed

lemma scenario_ascii: "list_all ascii_document [scenario_d1, scenario_d2]"
  by code_simp

lemma search_tags_every_lowercase:
  assumes "lowers_ascii toLowerCase"
  shows "filteredDocuments toLowerCase [scenario_d1] [''all''] ''struct'' = Inr [scenario_d1] \<and>
         \<not> searchMatch_claim toLowerCase ''struct'' scenario_d1"
proof
  have a: "list_all ascii_document [scenario_d1]" using scenario_ascii by simp
  have q: "list_all ascii_char ''struct''" by code_simp
  have "filteredDocuments lowerCaseASCII [scenario_d1] [''all''] ''struct'' = Inr [scenario_d1]"
    by code_simp
  with filteredDocuments_ascii[OF assms a q]
  show "filteredDocuments toLowerCase [scenario_d1] [''all''] ''struct'' = Inr [scenario_d1]"
    by simp
  have "list_all ascii_char ''Bridge Plan''" "list_all ascii_char ''structural''"
    "list_all ascii_char []" by code_simp+
  with q have "searchMatch_claim toLowerCase ''struct'' scenario_d1 =
      searchMatch_claim lowerCaseASCII ''struct'' scenario_d1"
    by (simp add: searchMatch_claim_def scenario_d1_def lowers_ascii_eq[OF assms])
  moreover have "\<not> searchMatch_claim lowerCaseASCII ''struct'' scenario_d1" by code_simp
  ultimately show "\<not> searchMatch_claim toLowerCase ''struct'' scenario_d1" by simp
qed

lemma searchStage_idem: "searchStage toLowerCase q (searchStage toLowerCase q F) = searchStage toLowerCase q F"
  by (simp add: searchStage_def)

lemma searchStage_filter_comm: "filter P (searchStage toLowerCase q F) = searchStage toLowerCase q (filter P F)"
  by (simp add: searchStage_def conj_commute)

lemma refilter_same: "filter P (searchStage toLowerCase q (filter P D)) = searchStage toLowerCase q (filter P D)"
  by (simp add: searchStage_filter_comm)

lemma lower_char_whitespace: "whitespace_char c \<Longrightarrow> lower_char c = c"
  by (auto simp: whitespace_char_def lower_char_def)

lemma whitespace_ascii: "whitespace_char c \<Longrightarrow> ascii_char c"
  by (auto simp: whitespace_char_def ascii_char_def)

lemma toLowerCase_whitespace:
  assumes "lowers_ascii toLowerCase" "list_all whitespace_char q"
  shows "toLowerCase q = q"
proof -
  from assms(2) have "list_all ascii_char q" by (auto simp: list_all_iff whitespace_ascii)
  with assms(1) have "toLowerCase q = map lower_char q" by (simp add: lowers_ascii_def)
  also from assms(2) have "map lower_char q = q"
    by (induction q) (simp_all add: lower_char_whitespace)
  finally show ?thesis .
qed

lemma searchMatch_unfold:
  "searchMatch toLowerCase query d =
     (sublist query (toLowerCase (d_name d)) \<or>
      (\<exists>t \<in> set (d_tags d). sublist query (toLowerCase t)) \<or>
      sublist query (toLowerCase (d_category d)) \<or>
      (\<exists>desc. d_description d = Some desc \<and> sublist query (toLowerCase desc)))"
  by (auto simp: searchMatch_def includes_str_def list_ex_iff split: option.splits)

lemma treeNodePaths_prefix:
  "path \<in> set (treeNodePaths parentPath node) \<Longrightarrow> prefix (parentPath @ [n_id node]) path"
proof (induction parentPath node arbitrary: path rule: treeNodePaths.induct)
  case (1 parentPath i nm t cs dc p ph di)
  show ?case
  proof (cases "path = parentPath @ [i]")
    case True then show ?thesis by simp
  next
    case False
    with "1.prems" obtain children c where cs: "cs = Some children" and c: "c \<in> set children"
      and p: "path \<in> set (treeNodePaths (parentPath @ [i]) c)"
      by (auto split: option.splits)
    from "1.IH"[OF cs c p] have "prefix ((parentPath @ [i]) @ [n_id c]) path" .
    then show ?thesis by (auto simp: prefix_def)
  qed
qed

lemma folderTree_shape:
  "folderTree projects D = Inr tree \<Longrightarrow>
   \<exists>cs. tree = [FolderNode ''all'' ''All Documents'' Project_t (Some cs) (Some (length D)) None None None]"
  by (auto simp: folderTree_def split: sum.splits)

lemma folderTree_paths_all:
  assumes "folderTree projects D = Inr tree" "path \<in> set (folderTreePaths tree)"
  shows "\<exists>r. path = ''all'' # r"
proof -
  from folderTree_shape[OF assms(1)] obtain cs where
    t: "tree = [FolderNode ''all'' ''All Documents'' Project_t (Some cs) (Some (length D)) None None None]"
    by blast
  with assms(2) have "path \<in> set (treeNodePaths [] (FolderNode ''all'' ''All Documents'' Project_t (Some cs) (Some (length D)) None None None))"
    by (simp add: folderTreePaths_def)
  from treeNodePaths_prefix[OF this] show ?thesis by (auto simp: prefix_def)
qed

lemma filteredDocuments_all: "filteredDocuments toLowerCase D (''all'' # r) q = Inr (searchStage toLowerCase q D)"
  by (simp add: filteredDocuments_def pathStage_def)

lemma filteredDocuments_first:
  assumes "take 1 p = take 1 p'"
  shows "filteredDocuments toLowerCase D p q = filteredDocuments toLowerCase D p' q"
proof (cases p)
  case Nil
  with assms have "p' = []" by (cases p') auto
  with Nil show ?thesis by simp
next
  case (Cons x r)
  with assms obtain r' where "p' = x # r'" by (cases p') auto
  with Cons show ?thesis by (simp add: filteredDocuments_def pathStage_resolve)
qed

section \<open>Facts about the tree builder\<close>

lemma bump_sel [simp]:
  "n_id (bump n) = n_id n" "n_name (bump n) = n_name n" "n_type (bump n) = n_type n"
  "n_children (bump n) = n_children n"
  "n_documentCount (bump n) = Some (countOf n + 1)"
  by (cases n; simp add: bump_def countOf_def)+

lemma set_children_sel [simp]:
  "n_id (set_children cs n) = n_id n" "n_name (set_children cs n) = n_name n"
  "n_type (set_children cs n) = n_type n" "n_children (set_children cs n) = cs"
  "n_documentCount (set_children cs n) = n_documentCount n"
  by (cases n; simp add: set_children_def)+

lemma push_child_sel [simp]:
  "n_id (push_child c n) = n_id n" "n_name (push_child c n) = n_name n"
  "n_type (push_child c n) = n_type n"
  "n_documentCount (push_child c n) = n_documentCount n"
  "n_children (push_child c n) = Some ((case n_children n of None \<Rightarrow> [] | Some cs \<Rightarrow> cs) @ [c])"
  by (simp_all add: push_child_def)

lemma disciplineStep_sel [simp]:
  "n_id (disciplineStep doc n) = n_id n" "n_name (disciplineStep doc n) = n_name n"
  "n_type (disciplineStep doc n) = n_type n"
  "n_documentCount (disciplineStep doc n) = n_documentCount n"
  by (simp_all add: disciplineStep_def Let_def split: option.splits)

lemma phaseStep_sel [simp]:
  "n_id (phaseStep doc n) = n_id n" "n_name (phaseStep doc n) = n_name n"
  "n_type (phaseStep doc n) = n_type n"
  "n_documentCount (phaseStep doc n) = n_documentCount n"
  by (simp_all add: phaseStep_def Let_def split: option.splits)

lemma countOf_step [simp]: "countOf (phaseStep doc (bump n)) = countOf n + 1"
  by (simp add: countOf_def)

lemma update_absent: "map_of m k = None \<Longrightarrow> AList.update k v m = m @ [(k, v)]"
  by (induction m) (auto split: if_splits)

lemma forEachBody_new:
  assumes "map_of m (d_projectId doc) = None"
  shows "forEachBody ps doc m =
    Inr (m @ [(d_projectId doc, phaseStep doc (bump (newProjectNode (projectNameOf ps doc) doc)))])"
proof -
  let ?k = "d_projectId doc" and ?n = "newProjectNode (projectNameOf ps doc) doc"
  have u: "AList.update ?k ?n m = m @ [(?k, ?n)]" using assms by (rule update_absent)
  have g: "map_of (m @ [(?k, ?n)]) ?k = Some ?n" using assms by (simp add: map_add_def)
  have "AList.update ?k (phaseStep doc (bump ?n)) (AList.update ?k ?n m) =
      AList.update ?k (phaseStep doc (bump ?n)) m" by simp
  also have "\<dots> = m @ [(?k, phaseStep doc (bump ?n))]" using assms by (rule update_absent)
  finally show ?thesis using assms u g by (simp add: forEachBody_def Let_def)
qed

lemma forEachBody_old:
  assumes "map_of m (d_projectId doc) = Some n"
  shows "forEachBody ps doc m = Inr (AList.update (d_projectId doc) (phaseStep doc (bump n)) m)"
  using assms by (simp add: forEachBody_def Let_def)

lemma forEachBody_total: "\<exists>m'. forEachBody ps doc m = Inr m'"
  by (cases "map_of m (d_projectId doc)") (simp_all add: forEachBody_new forEachBody_old)

lemma forEach_documents_total: "\<exists>m'. forEach_documents ps D m = Inr m'"
proof (induction D arbitrary: m)
  case Nil show ?case by simp
next
  case (Cons doc D)
  obtain m1 where "forEachBody ps doc m = Inr m1" using forEachBody_total by blast
  with Cons[of m1] show ?case by simp
qed

lemma folderTree_total:
  "\<exists>m. forEach_documents ps D [] = Inr m \<and>
     folderTree ps D = Inr [FolderNode ''all'' ''All Documents'' Project_t (Some (map snd m))
                 (Some (length D)) None None None]"
proof -
  obtain m where "forEach_documents ps D [] = Inr m" using forEach_documents_total by blast
  then show ?thesis by (simp add: folderTree_def)
qed

lemma sumCounts_update:
  "map_of m k = Some n \<Longrightarrow> sumCounts (AList.update k v m) + countOf n = sumCounts m + countOf v"
  by (induction m) (auto simp: sumCounts_def split: if_splits)

lemma sumCounts_forEachBody:
  assumes "forEachBody ps doc m = Inr m'"
  shows "sumCounts m' = sumCounts m + 1"
proof (cases "map_of m (d_projectId doc)")
  case None
  from forEachBody_new[OF None, of ps] assms
  have "m' = m @ [(d_projectId doc, phaseStep doc (bump (newProjectNode (projectNameOf ps doc) doc)))]"
    by simp
  then show ?thesis by (simp add: sumCounts_def newProjectNode_def countOf_def)
next
  case (Some n)
  from forEachBody_old[OF Some, of ps] assms
  have "m' = AList.update (d_projectId doc) (phaseStep doc (bump n)) m" by simp
  with sumCounts_update[OF Some, of "phaseStep doc (bump n)"] show ?thesis by simp
qed

lemma sumCounts_forEach:
  "forEach_documents ps D m = Inr m' \<Longrightarrow> sumCounts m' = sumCounts m + length D"
proof (induction D arbitrary: m)
  case Nil then show ?case by simp
next
  case (Cons doc D)
  obtain m1 where b: "forEachBody ps doc m = Inr m1" using forEachBody_total by blast
  with Cons.prems have "forEach_documents ps D m1 = Inr m'" by simp
  from Cons.IH[OF this] sumCounts_forEachBody[OF b] show ?case by simp
qed

lemma projectNameOf_For: "projectNameOf ps doc = projectNameFor ps (d_projectId doc)"
  by (simp add: projectNameOf_def projectNameFor_def)

lemma projectNameFor_unknown: "k \<notin> p_id ` set ps \<Longrightarrow> projectNameFor ps k = ''Unknown Project''"
proof -
  assume "k \<notin> p_id ` set ps"
  then have "find (\<lambda>p. p_id p = k) ps = None" by (auto simp: find_None_iff)
  then show ?thesis by (simp add: projectNameFor_def)
qed

lemma set_update_subset: "set (AList.update k v m) \<subseteq> insert (k, v) (set m)"
  by (induction m) auto

lemma projectNodes_ok_forEachBody:
  assumes ok: "projectNodes_ok ps m" and b: "forEachBody ps doc m = Inr m'"
  shows "projectNodes_ok ps m' \<and> fst ` set m' = insert (d_projectId doc) (fst ` set m)"
proof (cases "map_of m (d_projectId doc)")
  case None
  from forEachBody_new[OF None, of ps] b
  have "m' = m @ [(d_projectId doc, phaseStep doc (bump (newProjectNode (projectNameOf ps doc) doc)))]"
    by simp
  with ok show ?thesis
    by (simp add: projectNodes_ok_def newProjectNode_def projectNameOf_For)
next
  case (Some n)
  let ?k = "d_projectId doc" and ?v = "phaseStep doc (bump n)"
  from forEachBody_old[OF Some, of ps] b have m': "m' = AList.update ?k ?v m" by simp
  from Some have "(?k, n) \<in> set m" by (rule map_of_SomeD)
  with ok have n: "n_id n = ?k \<and> n_type n = Project_t \<and> n_name n = projectNameFor ps ?k"
    by (auto simp: projectNodes_ok_def list_all_iff)
  have "set m' \<subseteq> insert (?k, ?v) (set m)" unfolding m' by (rule set_update_subset)
  with ok n have "projectNodes_ok ps m'"
    by (auto simp: projectNodes_ok_def list_all_iff)
  moreover have "fst ` set m' = insert ?k (fst ` set m)" unfolding m' by (simp add: dom_update)
  ultimately show ?thesis by simp
qed

lemma projectNodes_ok_forEach:
  "projectNodes_ok ps m \<Longrightarrow> forEach_documents ps D m = Inr m' \<Longrightarrow>
   projectNodes_ok ps m' \<and> fst ` set m' = d_projectId ` set D \<union> fst ` set m"
proof (induction D arbitrary: m)
  case Nil then show ?case by simp
next
  case (Cons doc D)
  obtain m1 where b: "forEachBody ps doc m = Inr m1" using forEachBody_total by blast
  with Cons.prems have r: "forEach_documents ps D m1 = Inr m'" by simp
  from projectNodes_ok_forEachBody[OF Cons.prems(1) b]
  have ok1: "projectNodes_ok ps m1" and k1: "fst ` set m1 = insert (d_projectId doc) (fst ` set m)"
    by simp_all
  from Cons.IH[OF ok1 r] k1 show ?case by auto
qed

section \<open>The builder looks up by name what the specification looks up by id\<close>

lemma mutate_first_cong:
  "(\<And>x. x \<in> set xs \<Longrightarrow> P x = Q x) \<Longrightarrow> (\<And>x. x \<in> set xs \<Longrightarrow> P x \<Longrightarrow> f x = g x) \<Longrightarrow>
   mutate_first P f xs = mutate_first Q g xs"
  by (induction xs) auto

lemma map_mutate_first: "(\<And>x. h (f x) = h x) \<Longrightarrow> map h (mutate_first P f xs) = map h xs"
  by (induction xs) auto

lemma list_all_mutate_first:
  "list_all R xs \<Longrightarrow> (\<And>x. x \<in> set xs \<Longrightarrow> P x \<Longrightarrow> R x \<Longrightarrow> R (f x)) \<Longrightarrow>
   list_all R (mutate_first P f xs)"
  by (induction xs) auto

lemma find_test_cong: "(\<And>x. x \<in> set xs \<Longrightarrow> P x = Q x) \<Longrightarrow> find P xs = find Q xs"
  by (induction xs) auto

lemma wfDisc_bump: "wfDisc pre e \<Longrightarrow> wfDisc pre (bump e)"
  by (simp add: wfDisc_def)

lemma disciplineStep_wf:
  assumes wf: "wfPhase k c" and k: "d_projectId doc = k" and nm: "n_name c = phase_str (d_phase doc)"
  shows "disciplineStep doc c = disciplineStep_byId doc c \<and> wfPhase k (disciplineStep doc c)"
proof -
  let ?disc = "discipline_str (d_discipline doc)"
  let ?tn = "\<lambda>e. n_name e = ?disc"
  let ?ti = "\<lambda>e. n_id e = d_projectId doc @ ''-'' @ phase_str (d_phase doc) @ ''-'' @ ?disc"
  from wf obtain ds where ds: "n_children c = Some ds" and dn: "distinct (map n_name ds)"
    and dw: "list_all (wfDisc (n_id c)) ds" and idc: "n_id c = k @ ''-'' @ n_name c"
    by (auto simp: wfPhase_def split: option.splits)
  have tests: "?tn e = ?ti e" if "e \<in> set ds" for e
  proof -
    from that dw have "n_id e = n_id c @ ''-'' @ n_name e" by (auto simp: list_all_iff wfDisc_def)
    with idc k nm show ?thesis by simp
  qed
  have f: "find ?tn ds = find ?ti ds" using tests by (rule find_test_cong)
  have mf: "mutate_first ?tn bump ds = mutate_first ?ti bump ds"
  proof (rule mutate_first_cong)
    fix e assume "e \<in> set ds" then show "?tn e = ?ti e" by (rule tests)
  next
    fix e show "bump e = bump e" by (rule refl)
  qed
  have eq: "disciplineStep doc c = disciplineStep_byId doc c"
    using ds f mf
    by (simp add: disciplineStep_def disciplineStep_byId_def find_child_def Let_def
        split: option.splits)
  have "wfPhase k (disciplineStep doc c)"
  proof (cases "find ?tn ds")
    case None
    then have "?disc \<notin> set (map n_name ds)" by (auto simp: find_None_iff)
    moreover have "wfDisc (n_id c) (bump (newDisciplineNode doc))"
      using idc k nm by (simp add: wfDisc_def newDisciplineNode_def)
    ultimately show ?thesis using None ds dn dw idc
      by (simp add: wfPhase_def disciplineStep_def find_child_def Let_def newDisciplineNode_def)
  next
    case (Some e)
    have "list_all (wfDisc (n_id c)) (mutate_first ?tn bump ds)"
      using dw by (rule list_all_mutate_first) (rule wfDisc_bump)
    moreover have "map n_name (mutate_first ?tn bump ds) = map n_name ds"
      by (rule map_mutate_first) simp
    ultimately show ?thesis using Some ds dn idc
      by (simp add: wfPhase_def disciplineStep_def find_child_def Let_def)
  qed
  with eq show ?thesis by simp
qed

lemma wfPhase_bump: "wfPhase k c \<Longrightarrow> wfPhase k (bump c)"
  by (auto simp: wfPhase_def split: option.splits)

lemma phaseStep_wf:
  assumes wf: "wfProj k pn" and k: "d_projectId doc = k"
  shows "phaseStep doc pn = phaseStep_byId doc pn \<and> wfProj k (phaseStep doc pn)"
proof -
  let ?ph = "phase_str (d_phase doc)"
  let ?tn = "\<lambda>c. n_name c = ?ph"
  let ?ti = "\<lambda>c. n_id c = d_projectId doc @ ''-'' @ ?ph"
  let ?f = "\<lambda>n. disciplineStep doc (bump n)"
  let ?g = "\<lambda>n. disciplineStep_byId doc (bump n)"
  from wf obtain cs where cs: "n_children pn = Some cs" and dn: "distinct (map n_name cs)"
    and cw: "list_all (wfPhase k) cs" and idp: "n_id pn = k"
    by (auto simp: wfProj_def split: option.splits)
  have tests: "?tn c = ?ti c" if "c \<in> set cs" for c
  proof -
    from that cw have "n_id c = k @ ''-'' @ n_name c" by (auto simp: list_all_iff wfPhase_def)
    with k show ?thesis by simp
  qed
  have step: "?f c = ?g c \<and> wfPhase k (?f c)" if "wfPhase k c" "?tn c" for c
  proof -
    from that(2) have "n_name (bump c) = ?ph" by simp
    from disciplineStep_wf[OF wfPhase_bump[OF that(1)] k this] show ?thesis .
  qed
  have f: "find ?tn cs = find ?ti cs" using tests by (rule find_test_cong)
  have mf: "mutate_first ?tn ?f cs = mutate_first ?ti ?g cs"
  proof (rule mutate_first_cong)
    fix c assume "c \<in> set cs" then show "?tn c = ?ti c" by (rule tests)
  next
    fix c assume "c \<in> set cs" "?tn c"
    with cw have "wfPhase k c" by (auto simp: list_all_iff)
    with \<open>?tn c\<close> show "?f c = ?g c" using step by blast
  qed
  have new: "wfPhase k (newPhaseNode doc)" "?tn (newPhaseNode doc)"
    using k by (simp_all add: wfPhase_def newPhaseNode_def)
  have eq: "phaseStep doc pn = phaseStep_byId doc pn"
    using cs f mf step[OF new]
    by (simp add: phaseStep_def phaseStep_byId_def find_child_def Let_def split: option.splits)
  have "wfProj k (phaseStep doc pn)"
  proof (cases "find ?tn cs")
    case None
    then have "?ph \<notin> set (map n_name cs)" by (auto simp: find_None_iff)
    moreover have "n_name (disciplineStep doc (bump (newPhaseNode doc))) = ?ph"
      by (simp add: newPhaseNode_def)
    ultimately show ?thesis using None cs dn cw idp step[OF new, THEN conjunct2]
      by (simp add: wfProj_def phaseStep_def find_child_def Let_def)
  next
    case (Some c0)
    have "list_all (wfPhase k) (mutate_first ?tn ?f cs)"
      using cw by (rule list_all_mutate_first) (use step in blast)
    moreover have "map n_name (mutate_first ?tn ?f cs) = map n_name cs"
      by (rule map_mutate_first) simp
    ultimately show ?thesis using Some cs dn idp
      by (simp add: wfProj_def phaseStep_def find_child_def Let_def)
  qed
  with eq show ?thesis by simp
qed

lemma wfProj_bump: "wfProj k pn \<Longrightarrow> wfProj k (bump pn)"
  by (auto simp: wfProj_def split: option.splits)

lemma forEachBody_byId_new:
  assumes "map_of m (d_projectId doc) = None"
  shows "forEachBody_byId ps doc m =
    Inr (m @ [(d_projectId doc, phaseStep_byId doc (bump (newProjectNode (projectNameOf ps doc) doc)))])"
proof -
  let ?k = "d_projectId doc" and ?n = "newProjectNode (projectNameOf ps doc) doc"
  have u: "AList.update ?k ?n m = m @ [(?k, ?n)]" using assms by (rule update_absent)
  have g: "map_of (m @ [(?k, ?n)]) ?k = Some ?n" using assms by (simp add: map_add_def)
  have "AList.update ?k (phaseStep_byId doc (bump ?n)) (AList.update ?k ?n m) =
      AList.update ?k (phaseStep_byId doc (bump ?n)) m" by simp
  also have "\<dots> = m @ [(?k, phaseStep_byId doc (bump ?n))]" using assms by (rule update_absent)
  finally show ?thesis using assms u g by (simp add: forEachBody_byId_def Let_def)
qed

lemma forEachBody_byId_old:
  assumes "map_of m (d_projectId doc) = Some n"
  shows "forEachBody_byId ps doc m =
    Inr (AList.update (d_projectId doc) (phaseStep_byId doc (bump n)) m)"
  using assms by (simp add: forEachBody_byId_def Let_def)

lemma wfMap_forEachBody:
  assumes wf: "wfMap m"
  shows "forEachBody ps doc m = forEachBody_byId ps doc m \<and>
         (\<exists>m'. forEachBody ps doc m = Inr m' \<and> wfMap m')"
proof (cases "map_of m (d_projectId doc)")
  case None
  let ?k = "d_projectId doc" and ?n = "newProjectNode (projectNameOf ps doc) doc"
  have "wfProj ?k (bump ?n)" by (simp add: wfProj_def newProjectNode_def)
  note st = phaseStep_wf[OF this refl]
  from st have eq: "phaseStep doc (bump ?n) = phaseStep_byId doc (bump ?n)" by (rule conjunct1)
  from st have w: "wfProj ?k (phaseStep doc (bump ?n))" by (rule conjunct2)
  from None have "?k \<notin> fst ` set m" by (simp add: map_of_eq_None_iff)
  with wf w have "wfMap (m @ [(?k, phaseStep doc (bump ?n))])" by (simp add: wfMap_def)
  with eq show ?thesis
    by (simp add: forEachBody_new[OF None] forEachBody_byId_new[OF None])
next
  case (Some n)
  let ?k = "d_projectId doc" and ?v = "phaseStep doc (bump n)"
  from Some have "(?k, n) \<in> set m" by (rule map_of_SomeD)
  with wf have "wfProj ?k n" by (auto simp: wfMap_def list_all_iff)
  note st = phaseStep_wf[OF wfProj_bump[OF this] refl]
  from st have eq: "?v = phaseStep_byId doc (bump n)" by (rule conjunct1)
  from st have w: "wfProj ?k ?v" by (rule conjunct2)
  have "set (AList.update ?k ?v m) \<subseteq> insert (?k, ?v) (set m)" by (rule set_update_subset)
  with wf w have "list_all (\<lambda>(k, pn). wfProj k pn) (AList.update ?k ?v m)"
    by (auto simp: wfMap_def list_all_iff)
  moreover have "distinct (map fst (AList.update ?k ?v m))"
    using wf by (simp add: wfMap_def distinct_update)
  ultimately have "wfMap (AList.update ?k ?v m)" by (simp add: wfMap_def)
  then show ?thesis
    using eq by (simp add: forEachBody_old[OF Some] forEachBody_byId_old[OF Some])
qed

lemma wfMap_forEach:
  "wfMap m \<Longrightarrow> forEach_documents ps D m = forEach_documents_byId ps D m \<and>
     (\<exists>m'. forEach_documents ps D m = Inr m' \<and> wfMap m')"
proof (induction D arbitrary: m)
  case Nil then show ?case by simp
next
  case (Cons doc D)
  from wfMap_forEachBody[OF Cons.prems, of ps doc] obtain m1 where
    e: "forEachBody ps doc m = forEachBody_byId ps doc m" and b: "forEachBody ps doc m = Inr m1"
    and w: "wfMap m1" by blast
  from e b have b': "forEachBody_byId ps doc m = Inr m1" by simp
  note ih = Cons.IH[OF w]
  from ih have i1: "forEach_documents ps D m1 = forEach_documents_byId ps D m1"
    by (rule conjunct1)
  from ih obtain m' where i2: "forEach_documents ps D m1 = Inr m'" and i3: "wfMap m'"
    by blast
  have "forEach_documents ps (doc # D) m = forEach_documents_byId ps (doc # D) m"
    using b b' i1 by simp
  moreover have "forEach_documents ps (doc # D) m = Inr m'" using b i2 by simp
  ultimately show ?case using i3 by blast
qed

lemma siblings_distinct_sel:
  "siblings_distinct n =
     (case n_children n of None \<Rightarrow> True
      | Some cs \<Rightarrow> distinct (map n_id cs) \<and> list_all siblings_distinct cs)"
  by (cases n) simp

lemma distinct_ids_from_names:
  assumes "distinct (map n_name cs)" "\<And>c. c \<in> set cs \<Longrightarrow> n_id c = pre @ n_name c"
  shows "distinct (map n_id cs)"
proof -
  have "map n_id cs = map (\<lambda>c. pre @ n_name c) cs" using assms(2) by simp
  moreover have "distinct (map (\<lambda>c. pre @ n_name c) cs)"
    using assms(1) by (auto simp: distinct_map inj_on_def)
  ultimately show ?thesis by (simp only:)
qed

lemma wfDisc_siblings: "wfDisc pre e \<Longrightarrow> siblings_distinct e"
  by (simp add: siblings_distinct_sel wfDisc_def)

lemma wfPhase_siblings:
  assumes "wfPhase k c" shows "siblings_distinct c"
proof -
  from assms obtain ds where ds: "n_children c = Some ds" and dn: "distinct (map n_name ds)"
    and dw: "list_all (wfDisc (n_id c)) ds"
    by (auto simp: wfPhase_def split: option.splits)
  have "distinct (map n_id ds)"
    using dn by (rule distinct_ids_from_names[where pre = "n_id c @ ''-''"])
      (use dw in \<open>auto simp: list_all_iff wfDisc_def\<close>)
  moreover have "list_all siblings_distinct ds"
    using dw by (auto simp: list_all_iff intro: wfDisc_siblings)
  ultimately show ?thesis using ds by (simp add: siblings_distinct_sel)
qed

lemma wfProj_siblings:
  assumes "wfProj k pn" shows "siblings_distinct pn"
proof -
  from assms obtain cs where cs: "n_children pn = Some cs" and dn: "distinct (map n_name cs)"
    and cw: "list_all (wfPhase k) cs"
    by (auto simp: wfProj_def split: option.splits)
  have "distinct (map n_id cs)"
    using dn by (rule distinct_ids_from_names[where pre = "k @ ''-''"])
      (use cw in \<open>auto simp: list_all_iff wfPhase_def\<close>)
  moreover have "list_all siblings_distinct cs"
    using cw by (auto simp: list_all_iff intro: wfPhase_siblings)
  ultimately show ?thesis using cs by (simp add: siblings_distinct_sel)
qed

lemma wfMap_siblings:
  assumes "wfMap m"
  shows "distinct (map n_id (map snd m)) \<and> list_all siblings_distinct (map snd m)"
proof
  have a: "map n_id (map snd m) = map fst m"
    using assms by (auto simp: wfMap_def list_all_iff wfProj_def)
  show "distinct (map n_id (map snd m))"
    unfolding a using assms by (simp add: wfMap_def)
  have "siblings_distinct b" if "(a, b) \<in> set m" for a b
  proof -
    from assms that have "wfProj a b" by (auto simp: wfMap_def list_all_iff)
    then show ?thesis by (rule wfProj_siblings)
  qed
  then show "list_all siblings_distinct (map snd m)" by (auto simp: list_all_iff)
qed

section \<open>Claims\<close>

text \<open>
  C1. For every document collection, the filter engine on the selected path \<open>['all']\<close> and
  the empty search query returns the collection itself, every document in its place.
\<close>

theorem filteredDocuments_all_empty:
  "filteredDocuments toLowerCase D [''all''] [] = Inr D"
  by (simp add: filteredDocuments_def pathStage_def searchStage_def)

text \<open>
  C2. A selected path whose first element is not \<open>all\<close> is decoded by the rule of the
  specification: with a dash in it, the first two tokens joined by a dash restrict the
  projectId, the third token, if present, the phase, the fourth, if present, the discipline,
  all of them together; without a dash the element itself restricts the projectId. On the
  two documents of the scenario the path \<open>['proj-1-Design-Civil']\<close> with the empty query
  gives the first document alone.
\<close>

theorem filteredDocuments_path_decoding:
  "(pathId \<noteq> ''all'' \<longrightarrow>
      filteredDocuments toLowerCase D (pathId # rest) q =
        Inr (searchStage toLowerCase q (filter (resolveFilter pathId) D))) \<and>
   filteredDocuments toLowerCase [scenario_d1, scenario_d2] [''proj-1-Design-Civil''] [] =
     Inr [scenario_d1]"
proof
  show "pathId \<noteq> ''all'' \<longrightarrow>
      filteredDocuments toLowerCase D (pathId # rest) q =
        Inr (searchStage toLowerCase q (filter (resolveFilter pathId) D))"
    by (simp add: filteredDocuments_def pathStage_resolve)
  have "pathStage [''proj-1-Design-Civil''] [scenario_d1, scenario_d2] = Inr [scenario_d1]"
    by code_simp
  then show "filteredDocuments toLowerCase [scenario_d1, scenario_d2] [''proj-1-Design-Civil''] [] =
      Inr [scenario_d1]"
    by (simp add: filteredDocuments_def searchStage_def)
qed

theorem filteredDocuments_path_decoding_witness:
  "''proj-1-Execution'' \<noteq> ''all'' \<and>
   filteredDocuments lowerCaseASCII [scenario_d1, scenario_d2] [''proj-1-Execution'', ''x''] [] =
     Inr [scenario_d2]"
proof -
  have "searchStage lowerCaseASCII []
      (filter (resolveFilter ''proj-1-Execution'') [scenario_d1, scenario_d2]) = [scenario_d2]"
    by code_simp
  then show ?thesis
    using filteredDocuments_path_decoding
      [where pathId = "''proj-1-Execution''" and D = "[scenario_d1, scenario_d2]"
        and rest = "[''x'']" and q = "[]" and toLowerCase = lowerCaseASCII]
    by simp
qed

text \<open>
  C5, as the specification words it, fails: the specification has the query present among
  the tags, and the code keeps a document when the query is only a part of a tag. The query
  \<open>struct\<close> keeps the first document of the scenario, whose only tag is \<open>structural\<close> and
  whose name and category do not contain the query. All the strings are ASCII, where the
  lower-casing is known.
\<close>

theorem search_tags_counterexample:
  "filteredDocuments lowerCaseASCII [scenario_d1] [''all''] ''struct'' = Inr [scenario_d1] \<and>
   filter (searchMatch_claim lowerCaseASCII ''struct'') [scenario_d1] = []"
  by code_simp

text \<open>
  C5, amended. For a non-empty query the search stage keeps exactly the documents for which
  the lower-cased query is a substring of the lower-cased name, or of the lower-cased
  category, or of some lower-cased tag, or of the lower-cased description when there is one,
  in their order; this holds whatever the lower-casing function does. Two queries with the
  same lower-cased form give the same result on every collection and path, given that
  lower-casing leaves no non-empty string empty; \<open>civil\<close> and \<open>CIVIL\<close> are such a pair, given
  that lower-casing does on ASCII what it is known to do.
\<close>

theorem searchStage_retains:
  "(q \<noteq> [] \<longrightarrow>
      searchStage toLowerCase q D = filter (searchMatch_amended toLowerCase q) D) \<and>
   (keeps_nonempty toLowerCase \<and> toLowerCase q = toLowerCase q' \<longrightarrow>
      filteredDocuments toLowerCase D p q = filteredDocuments toLowerCase D p q') \<and>
   (lowers_ascii toLowerCase \<longrightarrow>
      filteredDocuments toLowerCase D p ''civil'' = filteredDocuments toLowerCase D p ''CIVIL'')"
proof (intro conjI impI)
  assume "q \<noteq> []"
  then show "searchStage toLowerCase q D = filter (searchMatch_amended toLowerCase q) D"
    by (simp add: searchStage_def searchMatch_iff cong: filter_cong)
next
  assume h: "keeps_nonempty toLowerCase \<and> toLowerCase q = toLowerCase q'"
  then have "\<And>F. searchStage toLowerCase q F = searchStage toLowerCase q' F"
    by (intro searchStage_lower_cong) simp_all
  then show "filteredDocuments toLowerCase D p q = filteredDocuments toLowerCase D p q'"
    by (simp add: filteredDocuments_def split: sum.splits)
next
  assume l: "lowers_ascii toLowerCase"
  have "list_all ascii_char ''civil''" "list_all ascii_char ''CIVIL''" by code_simp+
  then have "toLowerCase ''civil'' = lowerCaseASCII ''civil''"
    and "toLowerCase ''CIVIL'' = lowerCaseASCII ''CIVIL''"
    using l by (simp_all only: lowers_ascii_eq)
  moreover have "lowerCaseASCII ''civil'' = lowerCaseASCII ''CIVIL''" by code_simp
  ultimately have "toLowerCase ''civil'' = toLowerCase ''CIVIL''" by simp
  then have "\<And>F. searchStage toLowerCase ''civil'' F = searchStage toLowerCase ''CIVIL'' F"
    by (simp add: searchStage_def)
  then show "filteredDocuments toLowerCase D p ''civil'' = filteredDocuments toLowerCase D p ''CIVIL''"
    by (simp add: filteredDocuments_def split: sum.splits)
qed

theorem searchStage_retains_witness:
  "''Wiring'' \<noteq> [] \<and>
   filter (searchMatch_amended lowerCaseASCII ''Wiring'') [scenario_d1, scenario_d2] =
     [scenario_d2] \<and>
   keeps_nonempty lowerCaseASCII \<and> lowers_ascii lowerCaseASCII \<and>
   lowerCaseASCII ''Wiring'' = lowerCaseASCII ''wIRING'' \<and>
   filteredDocuments lowerCaseASCII [scenario_d1, scenario_d2] [''all''] ''wIRING'' =
     Inr [scenario_d2] \<and>
   filteredDocuments lowerCaseASCII
       [scenario_d1\<lparr>d_category := ''Civil Works''\<rparr>, scenario_d2] [''all''] ''CIVIL'' =
     Inr [scenario_d1\<lparr>d_category := ''Civil Works''\<rparr>]"
proof -
  have a: "searchStage lowerCaseASCII ''Wiring'' [scenario_d1, scenario_d2] = [scenario_d2]"
    by code_simp
  have b: "lowerCaseASCII ''Wiring'' = lowerCaseASCII ''wIRING''" by code_simp
  have c: "filteredDocuments lowerCaseASCII [scenario_d1, scenario_d2] [''all''] ''Wiring'' =
      Inr [scenario_d2]"
    by code_simp
  have d: "filteredDocuments lowerCaseASCII
      [scenario_d1\<lparr>d_category := ''Civil Works''\<rparr>, scenario_d2] [''all''] ''civil'' =
      Inr [scenario_d1\<lparr>d_category := ''Civil Works''\<rparr>]"
    by code_simp
  have n: "''Wiring'' \<noteq> []" by simp
  note t = searchStage_retains
    [where q = "''Wiring''" and D = "[scenario_d1, scenario_d2]" and q' = "''wIRING''"
      and p = "[''all'']" and toLowerCase = lowerCaseASCII]
  note u = searchStage_retains
    [where D = "[scenario_d1\<lparr>d_category := ''Civil Works''\<rparr>, scenario_d2]"
      and p = "[''all'']" and toLowerCase = lowerCaseASCII]
  show ?thesis
    using t u a b c d n lowerCaseASCII_keeps_nonempty lowerCaseASCII_lowers_ascii
    by metis
qed

text \<open>
  C6. The result depends on the first element of the selected path only: two paths that agree
  on it (or are both empty) give the same result. A path that begins with \<open>all\<close> restricts
  nothing, whatever follows. Every path that a click in the folder tree selects begins with
  \<open>all\<close>, so it leaves the result to the search stage alone.
\<close>

theorem filteredDocuments_first_element_only:
  "(take 1 p = take 1 p' \<longrightarrow>
      filteredDocuments toLowerCase D p q = filteredDocuments toLowerCase D p' q) \<and>
   filteredDocuments toLowerCase D (''all'' # r) q = Inr (searchStage toLowerCase q D) \<and>
   (folderTree projects D' = Inr tree \<and> path \<in> set (folderTreePaths tree) \<longrightarrow>
      take 1 path = [''all''] \<and>
      filteredDocuments toLowerCase D path q = Inr (searchStage toLowerCase q D))"
proof (intro conjI impI)
  assume "take 1 p = take 1 p'"
  then show "filteredDocuments toLowerCase D p q = filteredDocuments toLowerCase D p' q"
    by (rule filteredDocuments_first)
next
  show "filteredDocuments toLowerCase D (''all'' # r) q = Inr (searchStage toLowerCase q D)"
    by (rule filteredDocuments_all)
next
  assume h: "folderTree projects D' = Inr tree \<and> path \<in> set (folderTreePaths tree)"
  then obtain r where "path = ''all'' # r" using folderTree_paths_all by blast
  then show "take 1 path = [''all'']" by simp
next
  assume h: "folderTree projects D' = Inr tree \<and> path \<in> set (folderTreePaths tree)"
  then obtain r where "path = ''all'' # r" using folderTree_paths_all by blast
  then show "filteredDocuments toLowerCase D path q = Inr (searchStage toLowerCase q D)"
    by (simp add: filteredDocuments_all)
qed

theorem filteredDocuments_first_element_only_witness:
  "take 1 [''proj-1'', ''proj-1-Design''] = take 1 [''proj-1''] \<and>
   filteredDocuments lowerCaseASCII [scenario_d1, scenario_d2] [''proj-1'', ''proj-1-Design''] [] =
     Inr [scenario_d1, scenario_d2] \<and>
   folderTree [] [scenario_d1, scenario_d2] = Inr scenario_tree \<and>
   [''all'', ''proj-1'', ''proj-1-Design''] \<in> set (folderTreePaths scenario_tree) \<and>
   filteredDocuments lowerCaseASCII [scenario_d1, scenario_d2]
       [''all'', ''proj-1'', ''proj-1-Design''] [] =
     Inr [scenario_d1, scenario_d2]"
proof -
  have h1: "take 1 [''proj-1'', ''proj-1-Design''] = take 1 [''proj-1'']" by simp
  have h2: "filteredDocuments lowerCaseASCII [scenario_d1, scenario_d2] [''proj-1''] [] =
      Inr [scenario_d1, scenario_d2]" by code_simp
  have h3: "folderTree [] [scenario_d1, scenario_d2] = Inr scenario_tree" by code_simp
  have h4: "[''all'', ''proj-1'', ''proj-1-Design''] \<in> set (folderTreePaths scenario_tree)"
    by code_simp
  have h5: "searchStage lowerCaseASCII [] [scenario_d1, scenario_d2] = [scenario_d1, scenario_d2]"
    by (simp add: searchStage_def)
  note t = filteredDocuments_first_element_only
    [where p = "[''proj-1'', ''proj-1-Design'']" and p' = "[''proj-1'']"
      and D = "[scenario_d1, scenario_d2]" and q = "[]" and projects = "[]"
      and D' = "[scenario_d1, scenario_d2]" and tree = scenario_tree
      and path = "[''all'', ''proj-1'', ''proj-1-Design'']" and toLowerCase = lowerCaseASCII]
  from t h1 have a:
    "filteredDocuments lowerCaseASCII [scenario_d1, scenario_d2] [''proj-1'', ''proj-1-Design''] [] =
      filteredDocuments lowerCaseASCII [scenario_d1, scenario_d2] [''proj-1''] []" by blast
  from t h3 h4 have b: "filteredDocuments lowerCaseASCII [scenario_d1, scenario_d2]
      [''all'', ''proj-1'', ''proj-1-Design''] [] =
      Inr (searchStage lowerCaseASCII [] [scenario_d1, scenario_d2])"
    by blast
  show ?thesis using a b h1 h2 h3 h4 h5 by simp
qed

text \<open>
  C8. Filtering is idempotent: filtering the result again by the same path and query changes
  nothing. On the empty path the code throws, the first time as the second; on every other
  path it returns a list that is its own filtered form.
\<close>

theorem filteredDocuments_idempotent:
  "(case filteredDocuments toLowerCase D p q of Inl e \<Rightarrow> Inl e
    | Inr R \<Rightarrow> filteredDocuments toLowerCase R p q) =
     filteredDocuments toLowerCase D p q \<and>
   (p \<noteq> [] \<longrightarrow>
      (\<exists>R. filteredDocuments toLowerCase D p q = Inr R \<and>
           filteredDocuments toLowerCase R p q = Inr R))"
proof (cases p)
  case Nil
  then show ?thesis by (simp add: filteredDocuments_def pathStage_def)
next
  case (Cons x r)
  then show ?thesis
    by (simp add: filteredDocuments_def pathStage_resolve refilter_same searchStage_idem)
qed

theorem filteredDocuments_idempotent_witness:
  "[''proj-1-Design''] \<noteq> [] \<and>
   filteredDocuments lowerCaseASCII [scenario_d1, scenario_d2] [''proj-1-Design''] ''bridge'' =
     Inr [scenario_d1] \<and>
   filteredDocuments lowerCaseASCII [scenario_d1] [''proj-1-Design''] ''bridge'' =
     Inr [scenario_d1]"
proof -
  have e: "filteredDocuments lowerCaseASCII [scenario_d1, scenario_d2] [''proj-1-Design'']
      ''bridge'' = Inr [scenario_d1]" by code_simp
  have n: "[''proj-1-Design''] \<noteq> []" by simp
  from filteredDocuments_idempotent
    [where D = "[scenario_d1, scenario_d2]" and p = "[''proj-1-Design'']" and q = "''bridge''"
      and toLowerCase = lowerCaseASCII, THEN conjunct2, THEN mp, OF n]
  obtain R where
    r1: "filteredDocuments lowerCaseASCII [scenario_d1, scenario_d2] [''proj-1-Design'']
      ''bridge'' = Inr R"
    and r2: "filteredDocuments lowerCaseASCII R [''proj-1-Design''] ''bridge'' = Inr R" by blast
  from r1 e have "R = [scenario_d1]" by simp
  with r2 e n show ?thesis by simp
qed

text \<open>
  C10. A query of whitespace only is not the empty query: the search stage runs and keeps the
  documents that contain the whitespace string itself, untrimmed, in the lower-cased name, a
  lower-cased tag, the lower-cased category or the lower-cased description. Two spaces match
  neither document of the scenario, where the empty query keeps both. Lower-casing is taken
  to do on ASCII what it is known to do: whitespace is ASCII, and so are the strings of the
  scenario.
\<close>

theorem whitespace_query_literal:
  "(lowers_ascii toLowerCase \<and> q \<noteq> [] \<and> list_all whitespace_char q \<longrightarrow>
      filteredDocuments toLowerCase D (''all'' # r) q =
        Inr (filter (\<lambda>d. sublist q (toLowerCase (d_name d)) \<or>
                         (\<exists>t \<in> set (d_tags d). sublist q (toLowerCase t)) \<or>
                         sublist q (toLowerCase (d_category d)) \<or>
                         (\<exists>desc. d_description d = Some desc \<and>
                                 sublist q (toLowerCase desc))) D)) \<and>
   (lowers_ascii toLowerCase \<longrightarrow>
      filteredDocuments toLowerCase [scenario_d1, scenario_d2] [''all''] ''  '' = Inr []) \<and>
   filteredDocuments toLowerCase [scenario_d1, scenario_d2] [''all''] [] =
     Inr [scenario_d1, scenario_d2]"
proof (intro conjI impI)
  assume h: "lowers_ascii toLowerCase \<and> q \<noteq> [] \<and> list_all whitespace_char q"
  then have "toLowerCase q = q" by (simp add: toLowerCase_whitespace)
  with h show "filteredDocuments toLowerCase D (''all'' # r) q =
        Inr (filter (\<lambda>d. sublist q (toLowerCase (d_name d)) \<or>
                         (\<exists>t \<in> set (d_tags d). sublist q (toLowerCase t)) \<or>
                         sublist q (toLowerCase (d_category d)) \<or>
                         (\<exists>desc. d_description d = Some desc \<and>
                                 sublist q (toLowerCase desc))) D)"
    by (simp add: filteredDocuments_def pathStage_def searchStage_def searchMatch_unfold
        cong: filter_cong)
next
  assume l: "lowers_ascii toLowerCase"
  have q: "list_all ascii_char ''  ''" by code_simp
  have "filteredDocuments lowerCaseASCII [scenario_d1, scenario_d2] [''all''] ''  '' = Inr []"
    by code_simp
  with filteredDocuments_ascii[OF l scenario_ascii q]
  show "filteredDocuments toLowerCase [scenario_d1, scenario_d2] [''all''] ''  '' = Inr []"
    by simp
next
  show "filteredDocuments toLowerCase [scenario_d1, scenario_d2] [''all''] [] =
      Inr [scenario_d1, scenario_d2]"
    by (simp add: filteredDocuments_def pathStage_def searchStage_def)
qed

theorem whitespace_query_literal_witness:
  "lowers_ascii lowerCaseASCII \<and> '' '' \<noteq> [] \<and> list_all whitespace_char '' '' \<and>
   filter (\<lambda>d. sublist '' '' (lowerCaseASCII (d_name d)) \<or>
                (\<exists>t \<in> set (d_tags d). sublist '' '' (lowerCaseASCII t)) \<or>
                sublist '' '' (lowerCaseASCII (d_category d)) \<or>
                (\<exists>desc. d_description d = Some desc \<and> sublist '' '' (lowerCaseASCII desc)))
     [scenario_d1, scenario_d2\<lparr>d_name := ''Wiring''\<rparr>] = [scenario_d1] \<and>
   filteredDocuments lowerCaseASCII [scenario_d1, scenario_d2] [''all''] ''  '' = Inr []"
proof -
  have w: "lowers_ascii lowerCaseASCII \<and> '' '' \<noteq> [] \<and> list_all whitespace_char '' ''"
    by (simp add: whitespace_char_def lowerCaseASCII_lowers_ascii)
  have e: "filteredDocuments lowerCaseASCII [scenario_d1, scenario_d2\<lparr>d_name := ''Wiring''\<rparr>]
      [''all''] '' '' = Inr [scenario_d1]"
    by code_simp
  note t = whitespace_query_literal
      [where q = "'' ''" and D = "[scenario_d1, scenario_d2\<lparr>d_name := ''Wiring''\<rparr>]"
        and r = "[]" and toLowerCase = lowerCaseASCII]
  note f = t[THEN conjunct1, THEN mp, OF w, unfolded e]
  from f[symmetric] have g: "filter (\<lambda>d. sublist '' '' (lowerCaseASCII (d_name d)) \<or>
                (\<exists>t \<in> set (d_tags d). sublist '' '' (lowerCaseASCII t)) \<or>
                sublist '' '' (lowerCaseASCII (d_category d)) \<or>
                (\<exists>desc. d_description d = Some desc \<and> sublist '' '' (lowerCaseASCII desc)))
     [scenario_d1, scenario_d2\<lparr>d_name := ''Wiring''\<rparr>] = [scenario_d1]"
    by (simp only: sum.inject)
  from t[THEN conjunct2, THEN conjunct1, THEN mp, OF conjunct1[OF w]]
  have k: "filteredDocuments lowerCaseASCII [scenario_d1, scenario_d2] [''all''] ''  '' = Inr []" .
  show ?thesis
    by (rule conjI[OF conjunct1[OF w] conjI[OF conjunct1[OF conjunct2[OF w]]
          conjI[OF conjunct2[OF conjunct2[OF w]] conjI[OF g k]]]])
qed

text \<open>
  C4. For every document collection the tree builder returns one root node, with id \<open>all\<close>,
  of kind project, whose documentCount is the number of documents; for the empty collection
  the root counts 0 and has an empty list of children.
\<close>

theorem folderTree_root:
  "(\<exists>cs. folderTree projects D =
      Inr [FolderNode ''all'' ''All Documents'' Project_t (Some cs) (Some (length D))
             None None None]) \<and>
   folderTree projects [] =
      Inr [FolderNode ''all'' ''All Documents'' Project_t (Some []) (Some 0) None None None]"
proof
  show "\<exists>cs. folderTree projects D =
      Inr [FolderNode ''all'' ''All Documents'' Project_t (Some cs) (Some (length D))
             None None None]"
    using folderTree_total[of projects D] by blast
  show "folderTree projects [] =
      Inr [FolderNode ''all'' ''All Documents'' Project_t (Some []) (Some 0) None None None]"
    by (simp add: folderTree_def)
qed

text \<open>
  C7. For every document collection, the documentCounts of the children of the root add up to
  the documentCount of the root.
\<close>

theorem folderTree_children_sum:
  "\<exists>root cs. folderTree projects D = Inr [root] \<and> n_children root = Some cs \<and>
     sum_list (map countOf cs) = countOf root \<and> countOf root = length D"
proof -
  obtain m where m: "forEach_documents projects D [] = Inr m"
    and t: "folderTree projects D = Inr [FolderNode ''all'' ''All Documents'' Project_t
      (Some (map snd m)) (Some (length D)) None None None]"
    using folderTree_total by blast
  from sumCounts_forEach[OF m] have "sum_list (map countOf (map snd m)) = length D"
    by (simp add: sumCounts_def)
  with t show ?thesis by (simp add: countOf_def)
qed

text \<open>
  C9. The builder returns a tree for every collection and every list of projects; and for
  every document whose projectId no project of the list has, the root has a project node
  with that id, named \<open>Unknown Project\<close>.
\<close>

theorem folderTree_unknown_project:
  "(\<exists>tree. folderTree projects D = Inr tree) \<and>
   (d \<in> set D \<and> d_projectId d \<notin> p_id ` set projects \<longrightarrow>
      (\<exists>root cs node. folderTree projects D = Inr [root] \<and> n_children root = Some cs \<and>
         node \<in> set cs \<and> n_id node = d_projectId d \<and> n_type node = Project_t \<and>
         n_name node = ''Unknown Project''))"
proof -
  obtain m where m: "forEach_documents projects D [] = Inr m"
    and t: "folderTree projects D = Inr [FolderNode ''all'' ''All Documents'' Project_t
      (Some (map snd m)) (Some (length D)) None None None]"
    using folderTree_total by blast
  have ok0: "projectNodes_ok projects []" by (simp add: projectNodes_ok_def)
  from projectNodes_ok_forEach[OF ok0 m]
  have ok: "projectNodes_ok projects m" and keys: "fst ` set m = d_projectId ` set D" by simp_all
  have "\<exists>root cs node. folderTree projects D = Inr [root] \<and> n_children root = Some cs \<and>
         node \<in> set cs \<and> n_id node = d_projectId d \<and> n_type node = Project_t \<and>
         n_name node = ''Unknown Project''"
    if d: "d \<in> set D" and u: "d_projectId d \<notin> p_id ` set projects"
  proof -
    from d keys obtain n where n: "(d_projectId d, n) \<in> set m" by force
    with ok have "n_id n = d_projectId d \<and> n_type n = Project_t \<and>
        n_name n = projectNameFor projects (d_projectId d)"
      by (auto simp: projectNodes_ok_def list_all_iff)
    moreover have "n \<in> set (map snd m)" using n by force
    ultimately show ?thesis using t projectNameFor_unknown[OF u] by auto
  qed
  with t show ?thesis by blast
qed

theorem folderTree_unknown_project_witness:
  "scenario_d2 \<in> set [scenario_d1, scenario_d2] \<and>
   d_projectId scenario_d2 \<notin> p_id ` set [\<lparr>p_id = ''proj-9'', p_name = ''Depot''\<rparr>] \<and>
   (\<exists>root cs node. folderTree [\<lparr>p_id = ''proj-9'', p_name = ''Depot''\<rparr>]
        [scenario_d1, scenario_d2] = Inr [root] \<and> n_children root = Some cs \<and>
      node \<in> set cs \<and> n_id node = d_projectId scenario_d2 \<and> n_type node = Project_t \<and>
      n_name node = ''Unknown Project'')"
proof -
  have a: "scenario_d2 \<in> set [scenario_d1, scenario_d2]" by simp
  have b: "d_projectId scenario_d2 \<notin> p_id ` set [\<lparr>p_id = ''proj-9'', p_name = ''Depot''\<rparr>]"
    by (simp add: scenario_d2_def)
  show ?thesis
    using folderTree_unknown_project
      [where d = scenario_d2 and D = "[scenario_d1, scenario_d2]"
        and projects = "[\<lparr>p_id = ''proj-9'', p_name = ''Depot''\<rparr>]"] a b
    by blast
qed

text \<open>
  C3. The tree that the builder produces is the tree that lookup by the exact composite id
  produces (the code tests the name of the children, which under one parent singles out the
  same child as the composite id does), and in it no two sibling nodes share an id, at any
  level.
\<close>

theorem folderTree_lookup_by_id:
  "folderTree projects D = folderTree_byId projects D \<and>
   (\<exists>tree. folderTree projects D = Inr tree \<and> distinct (map n_id tree) \<and>
      list_all siblings_distinct tree)"
proof -
  have w0: "wfMap []" by (simp add: wfMap_def)
  from wfMap_forEach[OF w0, of projects D] obtain m where
    e: "forEach_documents projects D [] = forEach_documents_byId projects D []"
    and m: "forEach_documents projects D [] = Inr m" and w: "wfMap m" by blast
  from e have "folderTree projects D = folderTree_byId projects D"
    by (simp add: folderTree_def folderTree_byId_def)
  moreover from m wfMap_siblings[OF w]
  have "\<exists>tree. folderTree projects D = Inr tree \<and> distinct (map n_id tree) \<and>
      list_all siblings_distinct tree"
    by (simp add: folderTree_def)
  ultimately show ?thesis by simp
qed

end
